theory Spec2Isabelle
  imports Main "HOL-Library.Sublist"
begin

section \<open>Text model\<close>

text \<open>
  A Python \<open>str\<close> is a sequence of Unicode code points, and every operation of
  \<open>email_cleaner.py\<close> (\<open>strip\<close>, \<open>splitlines\<close>, \<open>split\<close>, \<open>replace\<close>, \<open>in\<close>, the
  regular expressions of \<open>re\<close>) works on code points. A character is therefore its code
  point, a natural number, and a string a list of them.
\<close>

type_synonym uchar = nat
type_synonym ustring = "uchar list"

definition LF :: uchar where "LF = 0x0A"
definition CR :: uchar where "CR = 0x0D"
definition SPACE :: uchar where "SPACE = 0x20"
definition COMMA :: uchar where "COMMA = 0x2C"
definition GT :: uchar where "GT = 0x3E"
definition WIDE_SPACE :: uchar where "WIDE_SPACE = 0x3000"
definition FULLSTOP :: uchar where "FULLSTOP = 0x3002"

text \<open>
  \<open>str.strip()\<close> without argument, \<open>str.isspace\<close> and the class \<open>\s\<close> of a \<open>str\<close> pattern
  all use CPython's \<open>Py_UNICODE_ISSPACE\<close>: the code points below.
\<close>

definition is_space :: "uchar \<Rightarrow> bool" where
  "is_space c \<longleftrightarrow>
     (0x09 \<le> c \<and> c \<le> 0x0D) \<or> (0x1C \<le> c \<and> c \<le> 0x20) \<or> c = 0x85 \<or> c = 0xA0 \<or>
     c = 0x1680 \<or> (0x2000 \<le> c \<and> c \<le> 0x200A) \<or> c = 0x2028 \<or> c = 0x2029 \<or>
     c = 0x202F \<or> c = 0x205F \<or> c = 0x3000"

text \<open>The line boundaries of \<open>str.splitlines()\<close> (\<open>Py_UNICODE_ISLINEBREAK\<close>).\<close>

definition is_linebreak :: "uchar \<Rightarrow> bool" where
  "is_linebreak c \<longleftrightarrow>
     (0x0A \<le> c \<and> c \<le> 0x0D) \<or> (0x1C \<le> c \<and> c \<le> 0x1E) \<or> c = 0x85 \<or>
     c = 0x2028 \<or> c = 0x2029"

text \<open>\<open>s.strip()\<close>: drop the white space at both ends.\<close>

definition strip :: "ustring \<Rightarrow> ustring" where
  "strip s = rev (dropWhile is_space (rev (dropWhile is_space s)))"

section \<open>Configuration: the keyword list\<close>

text \<open>
  \<open>s.split(',')\<close>: the pieces between the separators, empty pieces included; the empty
  string gives one empty piece.
\<close>

fun split :: "uchar \<Rightarrow> ustring \<Rightarrow> ustring list" where
  "split sep [] = [[]]"
| "split sep (c # cs) =
     (if c = sep then [] # split sep cs
      else (case split sep cs of
              [] \<Rightarrow> [[c]]
            | p # ps \<Rightarrow> (c # p) # ps))"

text \<open>
  \<open>EmailCleanerConfig.get_keywords\<close>, on the string that
  \<open>config.get('keywords', 'list', fallback='')\<close> returned:
  \<^verbatim>\<open>[kw.strip() for kw in keywords_str.split(',') if kw.strip()]\<close>.
\<close>

definition get_keywords :: "ustring \<Rightarrow> ustring list" where
  "get_keywords keywords_str =
     map strip (filter (\<lambda>kw. strip kw \<noteq> []) (split COMMA keywords_str))"

text \<open>
  The value that \<open>_create_default_config\<close> stores under \<open>keywords/list\<close> when there is no
  configuration file: the four terms U+8A18, U+4EF6 U+540D, U+5B9B U+5148 and
  U+5DEE U+51FA U+4EBA, separated by the ideographic comma U+3001.
\<close>

definition KW_KI :: ustring where "KW_KI = [0x8A18]"
definition KW_KENMEI :: ustring where "KW_KENMEI = [0x4EF6, 0x540D]"
definition KW_ATESAKI :: ustring where "KW_ATESAKI = [0x5B9B, 0x5148]"
definition KW_SASHIDASHININ :: ustring where "KW_SASHIDASHININ = [0x5DEE, 0x51FA, 0x4EBA]"

definition default_keywords_list :: ustring where
  "default_keywords_list =
     KW_KI @ [0x3001] @ KW_KENMEI @ [0x3001] @ KW_ATESAKI @ [0x3001] @ KW_SASHIDASHININ"

section \<open>The normalizer: \<open>EmailCleaner.clean_quoted_email\<close>\<close>

subsection \<open>Library operations on strings\<close>

text \<open>
  \<open>text.splitlines()\<close>: the lines without their line boundaries; \<open>\r\n\<close> is one boundary,
  a boundary at the very end opens no further line, and the empty string has no line.
  \<open>splitlines_from line s\<close> reads \<open>s\<close> with \<open>line\<close> the part of the current line read so
  far.
\<close>

fun splitlines_from :: "ustring \<Rightarrow> ustring \<Rightarrow> ustring list" where
  "splitlines_from line [] = (if line = [] then [] else [line])"
| "splitlines_from line [c] = (if is_linebreak c then [line] else [line @ [c]])"
| "splitlines_from line (c # d # cs) =
     (if c = CR \<and> d = LF then line # splitlines_from [] cs
      else if is_linebreak c then line # splitlines_from [] (d # cs)
      else splitlines_from (line @ [c]) (d # cs))"

definition splitlines :: "ustring \<Rightarrow> ustring list" where
  "splitlines s = splitlines_from [] s"

text \<open>\<open>sep.join(xs)\<close>.\<close>

fun join :: "ustring \<Rightarrow> ustring list \<Rightarrow> ustring" where
  "join sep [] = []"
| "join sep [x] = x"
| "join sep (x # y # ys) = x @ sep @ join sep (y # ys)"

text \<open>
  \<open>s.replace(old, new)\<close>: the occurrences of \<open>old\<close> are found from left to right, each
  search starting behind the previous occurrence. An empty \<open>old\<close> occurs before every
  character and at the end. \<open>kw in s\<close> is \<^const>\<open>sublist\<close>.
\<close>

function replace :: "ustring \<Rightarrow> ustring \<Rightarrow> ustring \<Rightarrow> ustring" where
  "replace old new [] = (if old = [] then new else [])"
| "replace old new (c # cs) =
     (if old = [] then new @ c # replace old new cs
      else if prefix old (c # cs) then new @ replace old new (drop (length old) (c # cs))
      else c # replace old new cs)"
  by pat_completeness auto
termination
  by (relation "measure (\<lambda>(old, new, s). length s)") auto

subsection \<open>The regular expressions\<close>

text \<open>
  Line 87, \<open>re.match(r'^\s*>+', line)\<close>: after the leading white space comes a \<open>>\<close>.
\<close>

definition is_quote_line :: "ustring \<Rightarrow> bool" where
  "is_quote_line line =
     (case dropWhile is_space line of [] \<Rightarrow> False | c # _ \<Rightarrow> c = GT)"

text \<open>
  Line 96, \<open>re.sub(r'^\s*>+\s?', '', line)\<close>: the pattern is anchored at the start of the
  line, so it matches at most once; the match is the leading white space, all the \<open>>\<close> that
  follow and one white space character behind them when there is one. A line that does
  not match is left as it is.
\<close>

definition remove_quote_marker :: "ustring \<Rightarrow> ustring" where
  "remove_quote_marker line =
     (if is_quote_line line then
        (case dropWhile (\<lambda>c. c = GT) (dropWhile is_space line) of
           [] \<Rightarrow> []
         | c # cs \<Rightarrow> if is_space c then cs else c # cs)
      else line)"

text \<open>The class \<open>[\s\<dots>]\<close> of lines 107 and 110: \<open>\s\<close> or the full-width space U+3000.\<close>

definition is_blank :: "uchar \<Rightarrow> bool" where
  "is_blank c \<longleftrightarrow> is_space c \<or> c = WIDE_SPACE"

text \<open>
  The characters excluded by the look-ahead of line 107: U+300D, U+300F, U+FF09, U+3011
  (closing CJK brackets) and \<open>} ] ) > " '\<close>.
\<close>

definition is_closing :: "uchar \<Rightarrow> bool" where
  "is_closing c \<longleftrightarrow>
     c = 0x300D \<or> c = 0x300F \<or> c = 0xFF09 \<or> c = 0x3011 \<or> c = 0x7D \<or> c = 0x5D \<or>
     c = 0x29 \<or> c = 0x3E \<or> c = 0x22 \<or> c = 0x27"

text \<open>The look-ahead \<open>(?=[^\<dots>])\<close>: there is a next character and it is not excluded.\<close>

definition lookahead :: "ustring \<Rightarrow> bool" where
  "lookahead s = (case s of [] \<Rightarrow> False | c # _ \<Rightarrow> \<not> is_closing c)"

text \<open>
  \<open>[\s\<dots>]*(?=[^\<dots>])\<close> matched at the start of \<open>s\<close>, as a backtracking matcher does it: the
  star first takes the next blank and tries the rest; when that fails it gives the blank
  back and tries the look-ahead here. The result is the text behind the match.
\<close>

fun match_blanks :: "ustring \<Rightarrow> ustring option" where
  "match_blanks [] = None"
| "match_blanks (c # cs) =
     (if is_blank c then
        (case match_blanks cs of
           Some rest \<Rightarrow> Some rest
         | None \<Rightarrow> if lookahead (c # cs) then Some (c # cs) else None)
      else if lookahead (c # cs) then Some (c # cs) else None)"

text \<open>
  Line 107, \<open>re.sub(<full stop>[\s\<dots>]*(?=[^\<dots>]), <full stop>\n, joined_text)\<close>: the text is
  scanned from left to right; where the pattern matches, the match is replaced and the
  scan goes on behind it.
\<close>

function sentence_break :: "ustring \<Rightarrow> ustring" where
  "sentence_break [] = []"
| "sentence_break (c # cs) =
     (if c = FULLSTOP then
        (case match_blanks cs of
           Some rest \<Rightarrow> FULLSTOP # LF # sentence_break rest
         | None \<Rightarrow> c # sentence_break cs)
      else c # sentence_break cs)"
  by pat_completeness auto
termination
proof (relation "measure length")
  fix c :: uchar and cs rest :: ustring
  have "match_blanks s = Some r \<Longrightarrow> length r \<le> length s" for s r
    by (induction s) (auto split: if_splits option.splits)
  moreover assume "match_blanks cs = Some rest"
  ultimately show "(rest, c # cs) \<in> measure length"
    by fastforce
qed simp_all

text \<open>Line 110, \<open>re.sub(r'[\s\<dots>]+', '\n', joined_text)\<close>: every run of blanks becomes one line break.\<close>

function blanks_to_newline :: "ustring \<Rightarrow> ustring" where
  "blanks_to_newline [] = []"
| "blanks_to_newline (c # cs) =
     (if is_blank c then LF # blanks_to_newline (dropWhile is_blank cs)
      else c # blanks_to_newline cs)"
  by pat_completeness auto
termination
  by (relation "measure length") (auto simp: le_imp_less_Suc length_dropWhile_le)

text \<open>
  Lines 113 to 116: for each keyword in turn, when it occurs in the text, every occurrence
  gets two line breaks in front.
\<close>

fun apply_keywords :: "ustring list \<Rightarrow> ustring \<Rightarrow> ustring" where
  "apply_keywords [] joined_text = joined_text"
| "apply_keywords (kw # kws) joined_text =
     apply_keywords kws
       (if sublist kw joined_text then replace kw (LF # LF # kw) joined_text
        else joined_text)"

text \<open>
  Line 119, \<open>re.sub(r'\n{3,}', '\n\n', joined_text)\<close>: the pattern matches where a line
  break is followed by at least two more and takes the whole run.
\<close>

function collapse_newlines :: "ustring \<Rightarrow> ustring" where
  "collapse_newlines [] = []"
| "collapse_newlines (c # cs) =
     (if c = LF \<and> 2 \<le> length (takeWhile (\<lambda>x. x = LF) cs)
      then LF # LF # collapse_newlines (dropWhile (\<lambda>x. x = LF) cs)
      else c # collapse_newlines cs)"
  by pat_completeness auto
termination
  by (relation "measure length") (auto simp: le_imp_less_Suc length_dropWhile_le)

subsection \<open>The function\<close>

text \<open>
  The one call in the \<open>try\<close> block that can raise is \<open>self.config.get_keywords()\<close>:
  \<open>ConfigParser.get\<close> raises an interpolation error on a value with a stray \<open>%\<close>. The
  outcome of that call is an argument: the exception or the keyword list.
\<close>

datatype py_error = ConfigError

definition quoted_lines :: "ustring \<Rightarrow> ustring list" where
  "quoted_lines text = filter is_quote_line (splitlines text)"

definition cleaned_lines :: "ustring \<Rightarrow> ustring list" where
  "cleaned_lines text =
     filter (\<lambda>cleaned_line. cleaned_line \<noteq> [])
       (map (\<lambda>line. strip (remove_quote_marker line)) (quoted_lines text))"

text \<open>Lines 104 to 110: the joined text with its sentence breaks.\<close>

definition reflow :: "ustring \<Rightarrow> ustring" where
  "reflow joined_text = blanks_to_newline (sentence_break joined_text)"

text \<open>The body of the \<open>try\<close> block, lines 84 to 121; \<open>Inl\<close> is an exception raised in it.\<close>

definition try_body :: "py_error + ustring list \<Rightarrow> ustring \<Rightarrow> py_error + ustring" where
  "try_body keywords text =
     (if quoted_lines text = [] then Inr (strip text)
      else if cleaned_lines text = [] then Inr []
      else (case keywords of
              Inl e \<Rightarrow> Inl e
            | Inr kws \<Rightarrow>
                Inr (strip (collapse_newlines
                  (apply_keywords kws (reflow (join [SPACE] (cleaned_lines text))))))))"

definition clean_quoted_email :: "py_error + ustring list \<Rightarrow> ustring \<Rightarrow> ustring" where
  "clean_quoted_email keywords text =
     (if strip text = [] then []
      else (case try_body keywords text of
              Inl e \<Rightarrow> text
            | Inr cleaned \<Rightarrow> cleaned))"

subsection \<open>Lines 107 and 110 in one pass\<close>

text \<open>
  Used in the proofs only: the text with a line break behind every full stop that is
  directly followed by a character outside the excluded ones. Replacing the blanks of this
  text gives the same result as replacing those of \<open>sentence_break\<close>
  (\<open>reflow_mark_fullstops\<close> below).
\<close>

fun mark_fullstops :: "ustring \<Rightarrow> ustring" where
  "mark_fullstops [] = []"
| "mark_fullstops (c # cs) =
     (if c = FULLSTOP \<and> lookahead cs then FULLSTOP # LF # mark_fullstops cs
      else c # mark_fullstops cs)"

subsection \<open>The example of the specification\<close>

text \<open>
  The two quoted lines of the specification's example (the first is the term U+8A18, a
  full-width colon and a sentence; the second another sentence; both end with the full stop
  U+3002), as one text.
\<close>

definition example_line1 :: ustring where
  "example_line1 = [GT, SPACE, 0x8A18, 0xFF1A, 0x30C6, 0x30B9, 0x30C8, 0x3067, 0x3059, FULLSTOP]"

definition example_line2 :: ustring where
  "example_line2 =
     [GT, SPACE, 0x672C, 0x6587, 0x306F, 0x3053, 0x3061, 0x3089, 0x3067, 0x3059, FULLSTOP]"

definition example_input :: ustring where
  "example_input = example_line1 @ [LF] @ example_line2"



section \<open>Auxiliary facts\<close>

subsection \<open>Character classes\<close>

lemma is_blank_iff: "is_blank c \<longleftrightarrow> is_space c"
  by (auto simp: is_blank_def is_space_def WIDE_SPACE_def)

lemma not_space_GT: "\<not> is_space GT"
  by (simp add: is_space_def GT_def)

lemmas char_defs = LF_def CR_def SPACE_def COMMA_def GT_def WIDE_SPACE_def FULLSTOP_def
lemmas class_defs = is_space_def is_linebreak_def is_blank_def is_closing_def lookahead_def
lemmas body_defs = clean_quoted_email_def try_body_def quoted_lines_def cleaned_lines_def
  splitlines_def is_quote_line_def remove_quote_marker_def strip_def reflow_def

subsection \<open>\<open>strip\<close>\<close>

lemma takeWhile_dropWhile_Nil: "takeWhile P (dropWhile P xs) = []"
  by (induction xs) auto

lemma dropWhile_snoc_keep: "\<not> P x \<Longrightarrow> dropWhile P (ys @ [x]) = dropWhile P ys @ [x]"
  by (induction ys) auto

lemma strip_Nil_iff: "strip s = [] \<longleftrightarrow> (\<forall>c\<in>set s. is_space c)"
proof -
  have "strip s = [] \<longleftrightarrow> (\<forall>c\<in>set (dropWhile is_space s). is_space c)"
    by (simp add: strip_def)
  also have "\<dots> \<longleftrightarrow> dropWhile is_space s = []"
    by (metis dropWhile_eq_Nil_conv dropWhile_idem)
  finally show ?thesis
    by simp
qed

lemma strip_no_trailing: "takeWhile is_space (rev (strip s)) = []"
  by (simp add: strip_def takeWhile_dropWhile_Nil)

lemma strip_no_leading: "takeWhile is_space (strip s) = []"
proof (cases "dropWhile is_space s")
  case Nil
  show ?thesis unfolding strip_def Nil by simp
next
  case (Cons x xs)
  then have nx: "\<not> is_space x"
    by (metis hd_dropWhile list.sel(1) list.distinct(1))
  have "strip s = rev (dropWhile is_space (rev xs @ [x]))"
    unfolding strip_def Cons by simp
  also have "\<dots> = x # rev (dropWhile is_space (rev xs))"
    using nx by (simp add: dropWhile_snoc_keep)
  finally show ?thesis using nx by simp
qed

subsection \<open>Lines\<close>

lemma set_splitlines_from:
  "l \<in> set (splitlines_from line s) \<Longrightarrow> set l \<subseteq> set line \<union> set s"
proof (induction line s rule: splitlines_from.induct)
  case (1 line)
  then show ?case by (simp split: if_splits)
next
  case (2 line c)
  then show ?case by (auto split: if_splits)
next
  case (3 line c d cs)
  show ?case
  proof (cases "c = CR \<and> d = LF")
    case True
    with 3(4) have "l = line \<or> l \<in> set (splitlines_from [] cs)" by simp
    with 3(1) True show ?thesis by auto
  next
    case False
    show ?thesis
    proof (cases "is_linebreak c")
      case True
      with False 3(4) have "l = line \<or> l \<in> set (splitlines_from [] (d # cs))" by auto
      with 3(2) False True show ?thesis by fastforce
    next
      case nb: False
      with False 3(4) have "l \<in> set (splitlines_from (line @ [c]) (d # cs))" by auto
      with 3(3) False nb show ?thesis by fastforce
    qed
  qed
qed

lemma set_splitlines: "l \<in> set (splitlines s) \<Longrightarrow> set l \<subseteq> set s"
  using set_splitlines_from [of l "[]" s] by (simp add: splitlines_def)

lemma is_quote_line_GT: "is_quote_line l \<Longrightarrow> GT \<in> set l"
proof -
  assume "is_quote_line l"
  then obtain cs where "dropWhile is_space l = GT # cs"
    by (auto simp: is_quote_line_def split: list.splits)
  then have "GT \<in> set (dropWhile is_space l)" by simp
  then show ?thesis by (rule set_dropWhileD)
qed

text \<open>A text with a quote line contains a \<open>>\<close>, so it is not blank.\<close>

lemma quoted_lines_not_blank:
  assumes "quoted_lines text \<noteq> []"
  shows "strip text \<noteq> []"
proof -
  from assms obtain l where "l \<in> set (splitlines text)" "is_quote_line l"
    unfolding quoted_lines_def by (metis filter_False)
  then have "GT \<in> set text"
    using set_splitlines is_quote_line_GT by blast
  then show ?thesis
    using not_space_GT by (auto simp: strip_Nil_iff)
qed

subsection \<open>Collapsing blank lines\<close>

lemma takeWhile_collapse_newlines:
  "takeWhile (\<lambda>x. x = LF) (collapse_newlines s) =
     (if 3 \<le> length (takeWhile (\<lambda>x. x = LF) s) then [LF, LF] else takeWhile (\<lambda>x. x = LF) s)"
proof (induction s rule: collapse_newlines.induct)
  case 1
  show ?case by simp
next
  case (2 c cs)
  show ?case
  proof (cases "c = LF \<and> 2 \<le> length (takeWhile (\<lambda>x. x = LF) cs)")
    case True
    with 2(1) have "takeWhile (\<lambda>x. x = LF) (collapse_newlines (dropWhile (\<lambda>x. x = LF) cs)) = []"
      by (simp add: takeWhile_dropWhile_Nil)
    with True show ?thesis by simp
  next
    case False
    with 2(2) show ?thesis by auto
  qed
qed

lemma prefix_LF3: "prefix [LF, LF, LF] (c # r) \<Longrightarrow> c = LF \<and> 2 \<le> length (takeWhile (\<lambda>x. x = LF) r)"
  by (auto simp: prefix_def)

lemma collapse_newlines_no_triple: "\<not> sublist [LF, LF, LF] (collapse_newlines s)"
proof (induction s rule: collapse_newlines.induct)
  case 1
  show ?case by simp
next
  case (2 c cs)
  show ?case
  proof (cases "c = LF \<and> 2 \<le> length (takeWhile (\<lambda>x. x = LF) cs)")
    case True
    let ?r = "collapse_newlines (dropWhile (\<lambda>x. x = LF) cs)"
    have tw: "takeWhile (\<lambda>x. x = LF) ?r = []"
      by (simp add: takeWhile_collapse_newlines takeWhile_dropWhile_Nil)
    have "\<not> prefix [LF, LF, LF] (LF # LF # ?r)"
      using tw by (auto simp: prefix_def)
    moreover have "\<not> prefix [LF, LF, LF] (LF # ?r)"
      using tw by (auto simp: prefix_def)
    moreover have "\<not> sublist [LF, LF, LF] ?r"
      using 2(1) True by simp
    ultimately show ?thesis
      using True by (simp add: sublist_Cons_right)
  next
    case False
    have "\<not> prefix [LF, LF, LF] (c # collapse_newlines cs)"
    proof
      assume "prefix [LF, LF, LF] (c # collapse_newlines cs)"
      then have "c = LF" "2 \<le> length (takeWhile (\<lambda>x. x = LF) (collapse_newlines cs))"
        using prefix_LF3 by blast+
      then have "c = LF \<and> 2 \<le> length (takeWhile (\<lambda>x. x = LF) cs)"
        by (simp add: takeWhile_collapse_newlines split: if_splits)
      with False show False by simp
    qed
    moreover have "\<not> sublist [LF, LF, LF] (collapse_newlines cs)"
      using 2(2) False by simp
    ultimately show ?thesis
      using False by (auto simp add: sublist_Cons_right)
  qed
qed

lemma sublist_strip: "sublist (strip s) s"
proof -
  let ?d = "dropWhile is_space s"
  have "sublist (dropWhile is_space (rev ?d)) (rev ?d)"
    by (simp add: suffix_dropWhile)
  then have "sublist (strip s) ?d"
    by (simp add: strip_def sublist_rev_left)
  moreover have "sublist ?d s"
    by (simp add: suffix_dropWhile)
  ultimately show ?thesis
    by (rule sublist_order.order_trans)
qed

lemma collapse_newlines_keeps_pair:
  assumes "xs = [] \<or> last xs \<noteq> LF" and "ys = [] \<or> hd ys \<noteq> LF"
  shows "collapse_newlines (xs @ LF # LF # ys) =
         collapse_newlines xs @ LF # LF # collapse_newlines ys"
  using assms(1)
proof (induction xs rule: collapse_newlines.induct)
  case 1
  from assms(2) have "takeWhile (\<lambda>x. x = LF) ys = []"
    by (cases ys) auto
  then show ?case by simp
next
  case (2 c cs)
  show ?case
  proof (cases "cs = []")
    case True
    with "2.prems" have "c \<noteq> LF" by simp
    with True "2.IH"(2) show ?thesis by simp
  next
    case False
    with "2.prems" have l: "last cs \<noteq> LF" by simp
    with False have m: "last cs \<in> set cs" by simp
    have tw: "takeWhile (\<lambda>x. x = LF) (cs @ zs) = takeWhile (\<lambda>x. x = LF) cs" for zs
      using m l by (simp add: takeWhile_append1)
    have dw: "dropWhile (\<lambda>x. x = LF) (cs @ zs) = dropWhile (\<lambda>x. x = LF) cs @ zs" for zs
      using m l by (simp add: dropWhile_append1)
    show ?thesis
    proof (cases "c = LF \<and> 2 \<le> length (takeWhile (\<lambda>x. x = LF) cs)")
      case True
      have "last (dropWhile (\<lambda>x. x = LF) cs) \<noteq> LF"
        using m l by (simp add: dropWhile_last)
      with "2.IH"(1) True have "collapse_newlines (dropWhile (\<lambda>x. x = LF) cs @ LF # LF # ys) =
        collapse_newlines (dropWhile (\<lambda>x. x = LF) cs) @ LF # LF # collapse_newlines ys"
        by simp
      with True show ?thesis by (simp add: tw dw)
    next
      case nc: False
      with "2.IH"(2) False l have "collapse_newlines (cs @ LF # LF # ys) =
        collapse_newlines cs @ LF # LF # collapse_newlines ys"
        by simp
      with nc show ?thesis by (auto simp add: tw)
    qed
  qed
qed

subsection \<open>Replacing keywords\<close>






subsection \<open>Sentence breaks\<close>

lemma blank_not_closing: "is_blank c \<Longrightarrow> \<not> is_closing c"
  by (auto simp: class_defs char_defs)

lemma not_blank_FULLSTOP: "\<not> is_blank FULLSTOP"
  by (simp add: class_defs char_defs)

lemma is_blank_LF: "is_blank LF"
  by (simp add: class_defs char_defs)

lemma blanks_to_newline_blanks:
  assumes "\<forall>w\<in>set ws. is_blank w" and "ws \<noteq> []"
  shows "blanks_to_newline (ws @ s) = LF # blanks_to_newline (dropWhile is_blank s)"
proof -
  obtain w ws' where ws: "ws = w # ws'" using assms(2) by (cases ws) auto
  with assms(1) have "is_blank w" "\<forall>x\<in>set ws'. is_blank x" by auto
  then show ?thesis unfolding ws by (simp add: dropWhile_append2)
qed

lemma blanks_to_newline_append:
  assumes "ys = [] \<or> \<not> is_blank (hd ys)"
  shows "blanks_to_newline (xs @ ys) = blanks_to_newline xs @ blanks_to_newline ys"
proof (induction xs rule: blanks_to_newline.induct)
  case 1
  show ?case by simp
next
  case (2 c cs)
  show ?case
  proof (cases "is_blank c")
    case True
    show ?thesis
    proof (cases "\<forall>x\<in>set cs. is_blank x")
      case all: True
      have "dropWhile is_blank ys = ys"
        using assms by (cases ys) auto
      moreover have "dropWhile is_blank cs = []"
        using all by simp
      ultimately show ?thesis
        using all True by (simp add: dropWhile_append2 del: dropWhile_eq_Nil_conv)
    next
      case False
      then have "dropWhile is_blank (cs @ ys) = dropWhile is_blank cs @ ys"
        by (auto simp: dropWhile_append)
      with True "2.IH"(1) show ?thesis by simp
    qed
  next
    case False
    with "2.IH"(2) show ?thesis by simp
  qed
qed

lemma blanks_to_newline_snoc:
  "\<not> is_blank c \<Longrightarrow> blanks_to_newline (xs @ c # ys) = blanks_to_newline (xs @ [c]) @ blanks_to_newline ys"
  using blanks_to_newline_append [of "c # ys" xs] blanks_to_newline_append [of "[c]" xs]
  by simp

lemma blanks_to_newline_dropWhile_cong:
  assumes "blanks_to_newline x = blanks_to_newline y"
  shows "blanks_to_newline (dropWhile is_blank x) = blanks_to_newline (dropWhile is_blank y)"
proof (cases x)
  case Nil
  with assms have "y = []" by (cases y) (auto split: if_splits)
  with Nil show ?thesis by simp
next
  case xc: (Cons c cs)
  show ?thesis
  proof (cases y)
    case Nil
    with assms xc show ?thesis by (auto split: if_splits)
  next
    case yc: (Cons d ds)
    show ?thesis
      using assms is_blank_LF unfolding xc yc
      by (cases "is_blank c"; cases "is_blank d") auto
  qed
qed

lemma blanks_to_newline_Cons_cong:
  assumes "blanks_to_newline x = blanks_to_newline y"
  shows "blanks_to_newline (c # x) = blanks_to_newline (c # y)"
  using assms blanks_to_newline_dropWhile_cong [OF assms] by simp

lemma match_blanks_Some:
  "match_blanks cs = Some rest \<Longrightarrow>
     lookahead cs \<and> (\<exists>ws. cs = ws @ rest \<and> (\<forall>w\<in>set ws. is_blank w))"
proof (induction cs)
  case Nil
  then show ?case by simp
next
  case (Cons c cs)
  show ?case
  proof (cases "match_blanks cs")
    case None
    with Cons.prems have "rest = c # cs" "lookahead (c # cs)"
      by (auto split: if_splits)
    then show ?thesis by simp
  next
    case (Some r)
    show ?thesis
    proof (cases "is_blank c")
      case True
      with Some Cons.prems have "r = rest" by simp
      with Some Cons.IH obtain ws where "cs = ws @ rest" "\<forall>w\<in>set ws. is_blank w"
        by auto
      then have "c # cs = (c # ws) @ rest \<and> (\<forall>w\<in>set (c # ws). is_blank w)"
        using True by simp
      moreover have "lookahead (c # cs)"
        using True by (simp add: lookahead_def blank_not_closing)
      ultimately show ?thesis by blast
    next
      case False
      with Cons.prems have "rest = c # cs" "lookahead (c # cs)"
        by (auto split: if_splits)
      then show ?thesis by simp
    qed
  qed
qed

lemma match_blanks_None: "match_blanks cs = None \<Longrightarrow> \<not> lookahead cs"
proof (cases cs)
  case Nil
  then show ?thesis by (simp add: lookahead_def)
next
  case (Cons c cs')
  assume "match_blanks cs = None"
  with Cons show ?thesis
    by (cases "is_blank c")
      (auto simp: lookahead_def blank_not_closing split: option.splits if_splits)
qed

lemma mark_fullstops_blanks:
  "\<forall>w\<in>set ws. is_blank w \<Longrightarrow> mark_fullstops (ws @ s) = ws @ mark_fullstops s"
  using not_blank_FULLSTOP by (induction ws) auto

lemma reflow_mark_fullstops:
  "blanks_to_newline (sentence_break s) = blanks_to_newline (mark_fullstops s)"
proof (induction s rule: sentence_break.induct)
  case 1
  show ?case by simp
next
  case (2 c cs)
  show ?case
  proof (cases "c = FULLSTOP")
    case False
    with "2.IH" have "blanks_to_newline (sentence_break cs) = blanks_to_newline (mark_fullstops cs)"
      by blast
    then have "blanks_to_newline (c # sentence_break cs) = blanks_to_newline (c # mark_fullstops cs)"
      by (rule blanks_to_newline_Cons_cong)
    moreover have "sentence_break (c # cs) = c # sentence_break cs"
      "mark_fullstops (c # cs) = c # mark_fullstops cs"
      using False by simp_all
    ultimately show ?thesis by (simp only:)
  next
    case True
    show ?thesis
    proof (cases "match_blanks cs")
      case None
      then have "\<not> lookahead cs" by (rule match_blanks_None)
      from True None "2.IH"
      have "blanks_to_newline (sentence_break cs) = blanks_to_newline (mark_fullstops cs)"
        by blast
      then have "blanks_to_newline (c # sentence_break cs) = blanks_to_newline (c # mark_fullstops cs)"
        by (rule blanks_to_newline_Cons_cong)
      moreover have "sentence_break (c # cs) = c # sentence_break cs"
        "mark_fullstops (c # cs) = c # mark_fullstops cs"
        using True None \<open>\<not> lookahead cs\<close> by simp_all
      ultimately show ?thesis by (simp only:)
    next
      case (Some rest)
      then obtain ws where la: "lookahead cs" and cs: "cs = ws @ rest"
        and ws: "\<forall>w\<in>set ws. is_blank w"
        using match_blanks_Some by blast
      have ih: "blanks_to_newline (sentence_break rest) = blanks_to_newline (mark_fullstops rest)"
        using "2.IH" True Some by blast
      have "blanks_to_newline (sentence_break (c # cs)) =
            FULLSTOP # LF # blanks_to_newline (dropWhile is_blank (sentence_break rest))"
        using True Some by (simp add: not_blank_FULLSTOP is_blank_LF)
      also have "\<dots> = FULLSTOP # LF # blanks_to_newline (dropWhile is_blank (mark_fullstops rest))"
        using blanks_to_newline_dropWhile_cong [OF ih] by simp
      also have "\<dots> = FULLSTOP # LF # blanks_to_newline (dropWhile is_blank (ws @ mark_fullstops rest))"
        using ws by (simp add: dropWhile_append2)
      also have "\<dots> = blanks_to_newline (mark_fullstops (c # cs))"
        using True la ws unfolding cs
        by (simp add: mark_fullstops_blanks not_blank_FULLSTOP is_blank_LF)
      finally show ?thesis .
    qed
  qed
qed

lemma lookahead_append: "lookahead (xs @ c # ys) = lookahead (xs @ [c])"
  by (cases xs) (simp_all add: lookahead_def)

lemma mark_fullstops_split:
  "mark_fullstops (xs @ c # ys) =
     mark_fullstops (xs @ [c]) @
       (if c = FULLSTOP \<and> lookahead ys then LF # mark_fullstops ys else mark_fullstops ys)"
proof (induction xs)
  case Nil
  show ?case by (simp add: lookahead_def)
next
  case (Cons x xs)
  show ?case
    using Cons.IH lookahead_append [of xs c ys] by simp
qed

lemma mark_fullstops_snoc: "\<exists>p. mark_fullstops (xs @ [c]) = p @ [c]"
proof (induction xs)
  case Nil
  show ?case by (simp add: lookahead_def)
next
  case (Cons x xs)
  then obtain p where p: "mark_fullstops (xs @ [c]) = p @ [c]" by blast
  show ?case
  proof (cases "x = FULLSTOP \<and> lookahead (xs @ [c])")
    case True
    then have "mark_fullstops ((x # xs) @ [c]) = (FULLSTOP # LF # p) @ [c]"
      using p by simp
    then show ?thesis by blast
  next
    case False
    then have "mark_fullstops ((x # xs) @ [c]) = (x # p) @ [c]"
      using p by auto
    then show ?thesis by blast
  qed
qed

lemma reflow_alt: "reflow s = blanks_to_newline (mark_fullstops s)"
  by (simp add: reflow_def reflow_mark_fullstops)

lemma reflow_snoc_fullstop: "\<exists>p. reflow (a @ [FULLSTOP]) = p @ [FULLSTOP]"
proof -
  obtain p where "mark_fullstops (a @ [FULLSTOP]) = p @ [FULLSTOP]"
    using mark_fullstops_snoc by blast
  then have "reflow (a @ [FULLSTOP]) = blanks_to_newline p @ [FULLSTOP]"
    using blanks_to_newline_append [of "[FULLSTOP]" p]
    by (simp add: reflow_alt not_blank_FULLSTOP)
  then show ?thesis by blast
qed

lemma mark_fullstops_after_fullstop:
  assumes "\<forall>w\<in>set ws. is_blank w"
  shows "mark_fullstops (a @ FULLSTOP # ws @ c # b) =
         mark_fullstops (a @ [FULLSTOP]) @
           (if ws = [] \<and> is_closing c then [] else LF # ws) @ mark_fullstops (c # b)"
proof -
  have la: "lookahead (ws @ c # b) \<longleftrightarrow> \<not> (ws = [] \<and> is_closing c)"
    using assms by (cases ws) (auto simp: lookahead_def blank_not_closing)
  have m: "mark_fullstops (ws @ c # b) = ws @ mark_fullstops (c # b)"
    using assms by (rule mark_fullstops_blanks)
  have "mark_fullstops (a @ FULLSTOP # (ws @ c # b)) =
        mark_fullstops (a @ [FULLSTOP]) @
          (if FULLSTOP = FULLSTOP \<and> lookahead (ws @ c # b)
           then LF # mark_fullstops (ws @ c # b) else mark_fullstops (ws @ c # b))"
    by (rule mark_fullstops_split)
  then show ?thesis
    unfolding la m by (cases "ws = [] \<and> is_closing c") simp_all
qed

lemma reflow_after_fullstop:
  assumes "\<forall>w\<in>set ws. is_blank w" and "\<not> is_blank c"
  shows "reflow (a @ FULLSTOP # ws @ c # b) =
         reflow (a @ [FULLSTOP]) @ (if ws = [] \<and> is_closing c then [] else [LF]) @ reflow (c # b)"
proof -
  obtain p where p: "mark_fullstops (a @ [FULLSTOP]) = p @ [FULLSTOP]"
    using mark_fullstops_snoc by blast
  let ?m = "mark_fullstops (c # b)"
  have hd: "dropWhile is_blank ?m = ?m"
    using assms(2) by (simp add: not_blank_FULLSTOP)
  have front: "blanks_to_newline (p @ FULLSTOP # r) =
      blanks_to_newline (p @ [FULLSTOP]) @ blanks_to_newline r" for r
    using not_blank_FULLSTOP by (rule blanks_to_newline_snoc)
  have "\<forall>w\<in>set (LF # ws). is_blank w"
    using assms(1) is_blank_LF by simp
  then have "blanks_to_newline ((LF # ws) @ ?m) = LF # blanks_to_newline (dropWhile is_blank ?m)"
    by (rule blanks_to_newline_blanks) simp
  then have rear: "blanks_to_newline (LF # ws @ ?m) = LF # blanks_to_newline ?m"
    unfolding hd by simp
  have "reflow (a @ FULLSTOP # ws @ c # b) =
        blanks_to_newline (p @ FULLSTOP # (if ws = [] \<and> is_closing c then [] else LF # ws) @ ?m)"
    unfolding reflow_alt mark_fullstops_after_fullstop [OF assms(1)] p by simp
  also have "\<dots> = blanks_to_newline (p @ [FULLSTOP]) @
        blanks_to_newline ((if ws = [] \<and> is_closing c then [] else LF # ws) @ ?m)"
    by (rule front)
  also have "blanks_to_newline ((if ws = [] \<and> is_closing c then [] else LF # ws) @ ?m) =
        (if ws = [] \<and> is_closing c then [] else [LF]) @ blanks_to_newline ?m"
    using rear by (cases "ws = [] \<and> is_closing c") (simp_all del: blanks_to_newline.simps mark_fullstops.simps)
  finally show ?thesis
    unfolding reflow_alt p .
qed

lemma reflow_hd: "\<not> is_blank c \<Longrightarrow> hd (reflow (c # b)) = c"
  by (simp add: reflow_alt not_blank_FULLSTOP)

section \<open>Properties\<close>

subsection \<open>Sentence breaks\<close>

text \<open>
  C1, as stated, fails: a full stop that is followed by blanks and then by a closing
  character does get a line break. On \<open>a<full stop> <U+300D>b\<close> the star of line 107 gives
  the blank back, the look-ahead accepts the blank, and the line break is put directly
  behind the full stop; line 110 then merges it with the blank. The whole function on the
  quoted line shows the same.
\<close>

theorem fullstop_blank_closing_gets_line_break:
  "is_closing 0x300D \<and>
   sentence_break [0x61, FULLSTOP, SPACE, 0x300D, 0x62] =
     [0x61, FULLSTOP, LF, SPACE, 0x300D, 0x62] \<and>
   reflow [0x61, FULLSTOP, SPACE, 0x300D, 0x62] = [0x61, FULLSTOP, LF, 0x300D, 0x62] \<and>
   clean_quoted_email (Inr []) [GT, SPACE, 0x61, FULLSTOP, SPACE, 0x300D, 0x62] =
     [0x61, FULLSTOP, LF, 0x300D, 0x62]"
  by (simp add: body_defs class_defs char_defs)

text \<open>
  C1, amended. Take a full stop of the joined text, the blanks \<open>ws\<close> behind it (none, or
  any number) and the next character \<open>c\<close> that is not a blank. After lines 107 and 110
  the text up to the full stop and the text from \<open>c\<close> on are as they would be alone, and
  between the full stop and \<open>c\<close> stands exactly one line break, except when \<open>c\<close> is a
  closing character that follows the full stop directly: then nothing stands between
  them. The blanks themselves are gone.
\<close>

theorem line_break_after_fullstop:
  assumes "list_all is_blank ws" and "\<not> is_blank c"
  shows "reflow (a @ FULLSTOP # ws @ c # b) =
           reflow (a @ [FULLSTOP]) @ (if ws = [] \<and> is_closing c then [] else [LF]) @
             reflow (c # b) \<and>
         last (reflow (a @ [FULLSTOP])) = FULLSTOP \<and>
         hd (reflow (c # b)) = c"
proof -
  from assms(1) have "\<forall>w\<in>set ws. is_blank w"
    by (simp add: list_all_iff)
  then have "reflow (a @ FULLSTOP # ws @ c # b) =
      reflow (a @ [FULLSTOP]) @ (if ws = [] \<and> is_closing c then [] else [LF]) @ reflow (c # b)"
    using assms(2) by (rule reflow_after_fullstop)
  moreover obtain p where "reflow (a @ [FULLSTOP]) = p @ [FULLSTOP]"
    using reflow_snoc_fullstop by blast
  then have "last (reflow (a @ [FULLSTOP])) = FULLSTOP"
    by simp
  moreover have "hd (reflow (c # b)) = c"
    using assms(2) by (rule reflow_hd)
  ultimately show ?thesis by blast
qed

text \<open>
  Two instances: \<open>a<full stop> <U+3000>b\<close>, with an ASCII and a full-width space before
  an ordinary character, and \<open>a<full stop><U+300D>b\<close>, the closing bracket directly behind
  the full stop.
\<close>

theorem line_break_after_fullstop_witness:
  "list_all is_blank [SPACE, WIDE_SPACE] \<and> \<not> is_blank 0x62 \<and>
   reflow ([0x61] @ FULLSTOP # [SPACE, WIDE_SPACE] @ 0x62 # []) =
     reflow ([0x61] @ [FULLSTOP]) @
       (if [SPACE, WIDE_SPACE] = [] \<and> is_closing 0x62 then [] else [LF]) @ reflow (0x62 # []) \<and>
   last (reflow ([0x61] @ [FULLSTOP])) = FULLSTOP \<and>
   hd (reflow (0x62 # [])) = 0x62 \<and>
   list_all is_blank [] \<and> \<not> is_blank 0x300D \<and>
   reflow ([0x61] @ FULLSTOP # [] @ 0x300D # [0x62]) =
     reflow ([0x61] @ [FULLSTOP]) @
       (if [] = ([] :: ustring) \<and> is_closing 0x300D then [] else [LF]) @ reflow (0x300D # [0x62]) \<and>
   reflow [0x61, FULLSTOP, SPACE, WIDE_SPACE, 0x62] = [0x61, FULLSTOP, LF, 0x62] \<and>
   reflow [0x61, FULLSTOP, 0x300D, 0x62] = [0x61, FULLSTOP, 0x300D, 0x62]"
proof -
  have h1: "list_all is_blank [SPACE, WIDE_SPACE]"
    by (simp add: class_defs char_defs)
  have h2: "\<not> is_blank 0x62"
    by (simp add: class_defs char_defs)
  have h3: "list_all is_blank []"
    by simp
  have h4: "\<not> is_blank 0x300D"
    by (simp add: class_defs char_defs)
  have e1: "reflow [0x61, FULLSTOP, SPACE, WIDE_SPACE, 0x62] = [0x61, FULLSTOP, LF, 0x62]"
    by (simp add: reflow_def class_defs char_defs)
  have e2: "reflow [0x61, FULLSTOP, 0x300D, 0x62] = [0x61, FULLSTOP, 0x300D, 0x62]"
    by (simp add: reflow_def class_defs char_defs)
  show ?thesis
    using h1 h2 h3 h4 e1 e2
      line_break_after_fullstop [OF h1 h2, of "[0x61]" "[]"]
      line_break_after_fullstop [OF h3 h4, of "[0x61]" "[0x62]"]
    by blast
qed

subsection \<open>Default keywords\<close>

text \<open>
  C2. With no configuration file the keyword list should be the four terms, in order. The
  default value separates them with U+3001 while \<open>get_keywords\<close> splits at the ASCII comma
  U+002C, so the whole default value comes back as one single keyword. (A configuration
  file without a keyword entry gives the fallback \<open>''\<close> and no keyword at all.)
\<close>

theorem get_keywords_default_single:
  "get_keywords default_keywords_list = [default_keywords_list] \<and>
   get_keywords default_keywords_list \<noteq> [KW_KI, KW_KENMEI, KW_ATESAKI, KW_SASHIDASHININ] \<and>
   get_keywords [] = []"
  by (simp add: get_keywords_def default_keywords_list_def KW_KI_def KW_KENMEI_def
      KW_ATESAKI_def KW_SASHIDASHININ_def COMMA_def strip_def is_space_def)

subsection \<open>Early returns\<close>

text \<open>
  C9. An input that is empty or has only white space characters gives the empty string.
\<close>

theorem blank_input_gives_empty:
  "list_all is_space text \<Longrightarrow> clean_quoted_email keywords text = []"
  by (simp add: clean_quoted_email_def strip_Nil_iff list_all_iff)

theorem blank_input_gives_empty_witness:
  "list_all is_space [SPACE, SPACE, SPACE, LF, 0x09, SPACE, SPACE] \<and>
   clean_quoted_email (Inr [KW_KENMEI]) [SPACE, SPACE, SPACE, LF, 0x09, SPACE, SPACE] = []"
proof -
  have h: "list_all is_space [SPACE, SPACE, SPACE, LF, 0x09, SPACE, SPACE]"
    by (simp add: is_space_def char_defs)
  show ?thesis
    using h blank_input_gives_empty [OF h, of "Inr [KW_KENMEI]"] by simp
qed

text \<open>
  C4. When no line of the input matches the quote-line pattern, the result is the input
  with the white space at both ends removed and nothing else changed.
\<close>

theorem no_quote_lines_gives_stripped_input:
  assumes "\<not> list_ex is_quote_line (splitlines text)"
  shows "clean_quoted_email keywords text = strip text"
proof -
  from assms have "quoted_lines text = []"
    by (simp add: quoted_lines_def list_ex_iff)
  then show ?thesis
    by (simp add: clean_quoted_email_def try_body_def)
qed

text \<open>The input \<open>" ab\n\ncd\t"\<close> comes back as \<open>"ab\n\ncd"\<close>.\<close>

theorem no_quote_lines_gives_stripped_input_witness:
  "\<not> list_ex is_quote_line (splitlines [SPACE, 0x61, 0x62, LF, LF, 0x63, 0x64, 0x09]) \<and>
   clean_quoted_email (Inr [KW_KENMEI]) [SPACE, 0x61, 0x62, LF, LF, 0x63, 0x64, 0x09] =
     [0x61, 0x62, LF, LF, 0x63, 0x64]"
proof -
  have h: "\<not> list_ex is_quote_line (splitlines [SPACE, 0x61, 0x62, LF, LF, 0x63, 0x64, 0x09])"
    by (simp add: splitlines_def is_quote_line_def class_defs char_defs)
  have "strip [SPACE, 0x61, 0x62, LF, LF, 0x63, 0x64, 0x09] = [0x61, 0x62, LF, LF, 0x63, 0x64]"
    by (simp add: strip_def class_defs char_defs)
  then show ?thesis
    using h no_quote_lines_gives_stripped_input [OF h, of "Inr [KW_KENMEI]"] by simp
qed

subsection \<open>Trimmed output\<close>

text \<open>
  C7. For every input and every keyword list, the returned string has no white space at
  its start and none at its end: the run of white space that leads the output is empty, and
  so is the run that leads the reversed output.
\<close>

theorem output_has_no_outer_space:
  "takeWhile is_space (clean_quoted_email (Inr kws) text) = [] \<and>
   takeWhile is_space (rev (clean_quoted_email (Inr kws) text)) = []"
  by (simp add: clean_quoted_email_def try_body_def strip_no_leading strip_no_trailing)

subsection \<open>Failure\<close>

text \<open>
  C8. The function returns a string on every input, and an exception raised inside the
  \<open>try\<close> block is caught: the result is then the input text as it was given.
\<close>

theorem exception_returns_original_text:
  assumes "try_body keywords text = Inl e"
  shows "clean_quoted_email keywords text = text"
proof -
  from assms have "quoted_lines text \<noteq> []"
    by (auto simp: try_body_def)
  then have "strip text \<noteq> []"
    by (rule quoted_lines_not_blank)
  with assms show ?thesis
    by (simp add: clean_quoted_email_def)
qed

text \<open>The input \<open>" > a "\<close> when reading the keywords raises.\<close>

theorem exception_returns_original_text_witness:
  "try_body (Inl ConfigError) [SPACE, GT, SPACE, 0x61, SPACE] = Inl ConfigError \<and>
   clean_quoted_email (Inl ConfigError) [SPACE, GT, SPACE, 0x61, SPACE] =
     [SPACE, GT, SPACE, 0x61, SPACE]"
proof -
  have h: "try_body (Inl ConfigError) [SPACE, GT, SPACE, 0x61, SPACE] = Inl ConfigError"
    by (simp add: body_defs class_defs char_defs)
  show ?thesis
    using h exception_returns_original_text [OF h] by simp
qed

subsection \<open>Lines without quote marker\<close>

text \<open>
  C10. Two inputs with the same quote lines, in the same order and at least one of them,
  give the same output under the same keyword list: the other lines have no influence.
\<close>

theorem unquoted_lines_do_not_matter:
  assumes "quoted_lines text1 = quoted_lines text2" and "quoted_lines text1 \<noteq> []"
  shows "clean_quoted_email (Inr kws) text1 = clean_quoted_email (Inr kws) text2"
proof -
  from assms have "strip text1 \<noteq> []" "strip text2 \<noteq> []"
    by (simp_all add: quoted_lines_not_blank)
  moreover from assms have "cleaned_lines text1 = cleaned_lines text2"
    by (simp add: cleaned_lines_def)
  ultimately show ?thesis
    using assms by (simp add: clean_quoted_email_def try_body_def)
qed

text \<open>The inputs \<open>"x\n> a\ny"\<close> and \<open>"> a"\<close>.\<close>

theorem unquoted_lines_do_not_matter_witness:
  "quoted_lines [0x78, LF, GT, SPACE, 0x61, LF, 0x79] = quoted_lines [GT, SPACE, 0x61] \<and>
   quoted_lines [0x78, LF, GT, SPACE, 0x61, LF, 0x79] \<noteq> [] \<and>
   clean_quoted_email (Inr [KW_KENMEI]) [0x78, LF, GT, SPACE, 0x61, LF, 0x79] =
     clean_quoted_email (Inr [KW_KENMEI]) [GT, SPACE, 0x61]"
proof -
  have h1: "quoted_lines [0x78, LF, GT, SPACE, 0x61, LF, 0x79] = quoted_lines [GT, SPACE, 0x61]"
    by (simp add: quoted_lines_def splitlines_def is_quote_line_def class_defs char_defs)
  have h2: "quoted_lines [0x78, LF, GT, SPACE, 0x61, LF, 0x79] \<noteq> []"
    by (simp add: quoted_lines_def splitlines_def is_quote_line_def class_defs char_defs)
  show ?thesis
    using h1 h2 unquoted_lines_do_not_matter [OF h1 h2, of "[KW_KENMEI]"] by simp
qed

subsection \<open>Keywords\<close>




subsection \<open>Blank lines\<close>

text \<open>
  C6, as stated, fails: an input without quote line is returned trimmed and otherwise
  untouched, three line breaks in a row included. The input is \<open>"a\n\n\nb"\<close>.
\<close>

theorem unquoted_input_keeps_triple_newline:
  "clean_quoted_email (Inr [KW_KENMEI]) [0x61, LF, LF, LF, 0x62] = [0x61, LF, LF, LF, 0x62] \<and>
   sublist [LF, LF, LF] (clean_quoted_email (Inr [KW_KENMEI]) [0x61, LF, LF, LF, 0x62])"
proof -
  have "clean_quoted_email (Inr [KW_KENMEI]) [0x61, LF, LF, LF, 0x62] = [0x61, LF, LF, LF, 0x62]"
    by (simp add: body_defs class_defs char_defs)
  moreover have "sublist [LF, LF, LF] ([0x61] @ [LF, LF, LF] @ [0x62])"
    by (rule sublist_appendI)
  ultimately show ?thesis by simp
qed

text \<open>
  C6, amended. When the input has a quote line, the output for any keyword list has no
  three line breaks in a row; and the collapsing step leaves a run of exactly two line
  breaks (no line break before it, none behind it) as it is.
\<close>

theorem quoted_input_has_no_triple_newline:
  assumes "list_ex is_quote_line (splitlines text)"
    and "xs = [] \<or> last xs \<noteq> LF"
    and "ys = [] \<or> hd ys \<noteq> LF"
  shows "\<not> sublist [LF, LF, LF] (clean_quoted_email (Inr kws) text) \<and>
         collapse_newlines (xs @ LF # LF # ys) =
           collapse_newlines xs @ LF # LF # collapse_newlines ys"
proof -
  from assms(1) have q: "quoted_lines text \<noteq> []"
    by (simp add: quoted_lines_def list_ex_iff filter_empty_conv)
  then have nb: "strip text \<noteq> []"
    by (rule quoted_lines_not_blank)
  have "\<not> sublist [LF, LF, LF] (strip (collapse_newlines t))" for t
    using sublist_strip [of "collapse_newlines t"] collapse_newlines_no_triple [of t]
      sublist_order.order_trans by blast
  with q nb have "\<not> sublist [LF, LF, LF] (clean_quoted_email (Inr kws) text)"
    by (simp add: clean_quoted_email_def try_body_def)
  with assms(2,3) show ?thesis
    by (simp add: collapse_newlines_keeps_pair)
qed

text \<open>The input \<open>"> a"\<close>, and the run of two in \<open>"a\n\nb"\<close>.\<close>

theorem quoted_input_has_no_triple_newline_witness:
  "list_ex is_quote_line (splitlines [GT, SPACE, 0x61]) \<and>
   last [0x61] \<noteq> LF \<and> hd [0x62] \<noteq> LF \<and>
   \<not> sublist [LF, LF, LF] (clean_quoted_email (Inr [KW_KENMEI]) [GT, SPACE, 0x61]) \<and>
   collapse_newlines ([0x61] @ LF # LF # [0x62]) =
     collapse_newlines [0x61] @ LF # LF # collapse_newlines [0x62]"
proof -
  have h1: "list_ex is_quote_line (splitlines [GT, SPACE, 0x61])"
    by (simp add: splitlines_def is_quote_line_def class_defs char_defs)
  have h2: "[0x61] = [] \<or> last [0x61] \<noteq> LF"
    by (simp add: LF_def)
  have h3: "[0x62] = [] \<or> hd [0x62] \<noteq> LF"
    by (simp add: LF_def)
  have "last [0x61] \<noteq> LF" "hd [0x62] \<noteq> LF"
    by (simp_all add: LF_def)
  then show ?thesis
    using h1 quoted_input_has_no_triple_newline [OF h1 h2 h3, of "[KW_KENMEI]"] by blast
qed

subsection \<open>The example\<close>

text \<open>
  C3, as stated, fails: on the example input with the one keyword U+8A18 the output does
  not begin with a line break, so there is no blank line before the keyword, and the last
  full stop ends the output with no line break behind it.
\<close>

theorem example_output_starts_with_keyword:
  "\<not> prefix [LF] (clean_quoted_email (Inr [KW_KI]) example_input) \<and>
   last (clean_quoted_email (Inr [KW_KI]) example_input) = FULLSTOP"
  by (simp add: body_defs class_defs char_defs KW_KI_def
      example_input_def example_line1_def example_line2_def)

text \<open>
  C3, amended. On the example input with the one keyword U+8A18 the output is the two
  sentences with one line break between them: the two line breaks put before the keyword
  are removed again by the final trim, a line break follows the first full stop and none
  the last.
\<close>

theorem example_output:
  "clean_quoted_email (Inr [KW_KI]) example_input =
     [0x8A18, 0xFF1A, 0x30C6, 0x30B9, 0x30C8, 0x3067, 0x3059, FULLSTOP, LF,
      0x672C, 0x6587, 0x306F, 0x3053, 0x3061, 0x3089, 0x3067, 0x3059, FULLSTOP]"
  by (simp add: body_defs class_defs char_defs KW_KI_def
      example_input_def example_line1_def example_line2_def)

end
